theory Spec2Isabelle
  imports Main "HOL-Library.Sublist"
begin

section \<open>reclass: references in string values (reclass/utils/refvalue.py)\<close>

text \<open>
  The module isolates references such as \<open>${a.b}\<close> in a string: a lexer cuts the string
  into tokens, a parser turns the tokens into literal and reference parts (applying the
  escape rules), and the assembler renders the parts against a context. The embedding
  follows the Python function by function; every \<open>raise\<close> is a value of \<open>error\<close>.
\<close>

subsection \<open>Python values, slices and \<open>str.find\<close>\<close>

text \<open>
  The only place where the source compares values of different Python types is line 214
  (a token tuple against a tag string), so a small universe of Python values is kept for
  that comparison: \<open>==\<close> on strings and tuples is structural equality.
\<close>

datatype pyval = PyStr string | PyTuple "pyval list"

definition py_eq :: "pyval \<Rightarrow> pyval \<Rightarrow> bool" where
  "py_eq a b = (a = b)"

text \<open>\<open>s[a:b]\<close> and \<open>s[a:]\<close> for indices that are not negative.\<close>

definition slice :: "string \<Rightarrow> nat \<Rightarrow> nat \<Rightarrow> string" where
  "slice s a b = take (b - a) (drop a s)"

definition slice_from :: "string \<Rightarrow> nat \<Rightarrow> string" where
  "slice_from s a = drop a s"

text \<open>
  \<open>s.find(sub, start, end)\<close>: the lowest index \<open>i \<ge> start\<close> such that \<open>sub\<close> lies within
  \<open>s[start:end]\<close> at \<open>i\<close>, or \<open>-1\<close>.
\<close>

definition py_find :: "string \<Rightarrow> string \<Rightarrow> nat \<Rightarrow> nat \<Rightarrow> int" where
  "py_find s sub start end =
     (case List.find (\<lambda>i. i + length sub \<le> min end (length s) \<and> slice s i (i + length sub) = sub)
             [start ..< Suc (min end (length s))] of
        None \<Rightarrow> - 1
      | Some i \<Rightarrow> int i)"

subsection \<open>Tokens, parts, configuration, errors\<close>

text \<open>The lexer tags (lines 71 to 74), an enumeration that the source writes as strings.\<close>

datatype lt_tag = LT_ESCAPE | LT_INTRPL_START | LT_INTRPL_END | LT_LITERAL

fun tag_str :: "lt_tag \<Rightarrow> string" where
  "tag_str LT_ESCAPE = ''ESCAPE''"
| "tag_str LT_INTRPL_START = ''INTRPL_START''"
| "tag_str LT_INTRPL_END = ''INTRPL_END''"
| "tag_str LT_LITERAL = ''LITERAL''"

text \<open>A token is the tuple \<open>(text, tag)\<close>; \<open>TT_TEXT = 0\<close> and \<open>TT_TAG = 1\<close> index it.\<close>

type_synonym token = "string \<times> lt_tag"

definition TT_TEXT :: "token \<Rightarrow> string" where
  "TT_TEXT t = fst t"

definition TT_TAG :: "token \<Rightarrow> lt_tag" where
  "TT_TAG t = snd t"

definition py_token :: "token \<Rightarrow> pyval" where
  "py_token t = PyTuple [PyStr (fst t), PyStr (tag_str (snd t))]"

definition ESCAPABLE_LT_TOKENS :: "lt_tag list" where
  "ESCAPABLE_LT_TOKENS = [LT_ESCAPE, LT_INTRPL_START]"

datatype part_type = PT_LITERAL | PT_REFERENCE

text \<open>A part is the dictionary \<open>{'type': ..., 'data': ...}\<close>.\<close>

record part =
  ptype :: part_type
  data :: string

text \<open>
  What the module raises: its three errors, the \<open>IndexError\<close> of an index out of range, and
  an exception of the lookup collaborator or of \<open>str\<close> that nothing catches.
\<close>

datatype pyexc = KeyError | OtherException string

datatype error =
    IncompleteInterpolationError string string
  | InterpolationError string
  | UndefinedVariableError string
  | IndexError
  | Raised pyexc

text \<open>
  The three constants that the module imports from \<open>reclass.defaults\<close> are not part of
  it; they are a parameter of the model. The sentinels are a pair, indexed \<open>[0]\<close> and
  \<open>[1]\<close>.
\<close>

record config =
  ESCAPE_CHARACTER :: string
  PARAMETER_INTERPOLATION_SENTINELS :: "string \<times> string"
  PARAMETER_INTERPOLATION_DELIMITER :: string

definition TOKEN_EXPRS :: "config \<Rightarrow> (string \<times> lt_tag) list" where
  "TOKEN_EXPRS cfg =
     [(ESCAPE_CHARACTER cfg, LT_ESCAPE),
      (fst (PARAMETER_INTERPOLATION_SENTINELS cfg), LT_INTRPL_START),
      (snd (PARAMETER_INTERPOLATION_SENTINELS cfg), LT_INTRPL_END)]"

text \<open>
  Modelled from the spec: the values of \<open>reclass.defaults\<close> (absent from the sources), a
  backslash as escape character, the sentinel pair \<open>${\<close> and \<open>}\<close> (the docstring of the
  class assumes both as well) and the path delimiter \<open>.\<close>.
\<close>

definition default_config :: config where
  "default_config =
     \<lparr>ESCAPE_CHARACTER = [CHR 0x5C],
      PARAMETER_INTERPOLATION_SENTINELS = (''${'', ''}''),
      PARAMETER_INTERPOLATION_DELIMITER = ''.''\<rparr>"

subsection \<open>The lexer (\<open>_lex\<close>, lines 103 to 150)\<close>

text \<open>
  The \<open>for\<close> loop over \<open>TOKEN_EXPRS\<close> (lines 114 to 130). Its state is
  \<open>(match_start, match_end, tokens, token_literal_start)\<close>; the first pattern found at
  \<open>pos\<close> flushes the pending literal, appends its token and breaks.
\<close>

type_synonym lex_state = "int \<times> int \<times> token list \<times> nat option"

fun for_token_exprs :: "string \<Rightarrow> nat \<Rightarrow> (string \<times> lt_tag) list \<Rightarrow> lex_state \<Rightarrow> lex_state" where
  "for_token_exprs chars pos [] st = st"
| "for_token_exprs chars pos ((pattern, tag) # rest) (match_start, match_end, tokens, token_literal_start) =
     (let match_start = py_find chars pattern pos (pos + length pattern)
      in if match_start \<ge> 0 \<and> tag_str tag \<noteq> []
         then (let tokens1 = (case token_literal_start of
                                None \<Rightarrow> tokens
                              | Some ls \<Rightarrow> tokens @ [(slice chars ls (nat match_start), LT_LITERAL)]);
                   match_end = match_start + int (length pattern);
                   text = slice chars (nat match_start) (nat match_end)
               in (match_start, match_end, tokens1 @ [(text, tag)], None))
         else for_token_exprs chars pos rest (match_start, match_end, tokens, token_literal_start))"

text \<open>
  The \<open>while\<close> loop (lines 108 to 143) and the final flush (lines 147 to 150). A pattern that
  is the empty string matches without moving the cursor, so the loop need not end: the
  result is an option, \<open>None\<close> when the loop does not return.
\<close>

partial_function (option) lex_loop :: "config \<Rightarrow> string \<Rightarrow> nat \<Rightarrow> token list \<Rightarrow> nat option \<Rightarrow> token list option" where
  "lex_loop cfg chars pos tokens token_literal_start =
     (if pos < length chars
      then (case for_token_exprs chars pos (TOKEN_EXPRS cfg) (- 1, - 1, tokens, token_literal_start) of
              (match_start, match_end, tokens1, literal_start1) \<Rightarrow>
                if match_start = - 1 \<and> literal_start1 = None
                then lex_loop cfg chars pos tokens1 (Some pos)
                else if match_start \<ge> 0
                then lex_loop cfg chars (nat match_end) tokens1 literal_start1
                else lex_loop cfg chars (pos + 1) tokens1 literal_start1)
      else (case token_literal_start of
              None \<Rightarrow> Some tokens
            | Some ls \<Rightarrow> Some (tokens @ [(slice_from chars ls, LT_LITERAL)])))"

declare lex_loop.simps [code]

definition lex :: "config \<Rightarrow> string \<Rightarrow> token list option" where
  "lex cfg chars = lex_loop cfg chars 0 [] None"

subsection \<open>The parser (\<open>_parse\<close> and \<open>_parse_interpolation\<close>, lines 152 to 230)\<close>

text \<open>
  \<open>token_iterator\<close> is \<open>iter(enumerate(tokens))\<close>: its state is the index \<open>it\<close> of the next
  token, \<open>next()\<close> yields \<open>(it, tokens[it])\<close> and moves on, or raises \<open>StopIteration\<close> when
  \<open>it\<close> has reached the end. Both loops share the iterator, so the sub-scan returns its
  final state to the main loop.

  The \<open>while True\<close> loop of \<open>_parse_interpolation\<close> (lines 206 to 220). \<open>StopIteration\<close> is
  caught and becomes the incomplete-interpolation error (line 223); \<open>tokens[index + 1]\<close>
  beyond the end raises \<open>IndexError\<close>, which nothing catches. Line 214 compares the token
  tuple itself with the tag string.
\<close>

function parse_interpolation_loop :: "config \<Rightarrow> token list \<Rightarrow> nat \<Rightarrow> string list \<Rightarrow> error + (string list \<times> nat)" where
  "parse_interpolation_loop cfg tokens it parts =
     (if it \<ge> length tokens
      then Inl (IncompleteInterpolationError (concat parts) (snd (PARAMETER_INTERPOLATION_SENTINELS cfg)))
      else (let index = it; token = tokens ! it
            in if TT_TAG token = LT_INTRPL_END
               then Inr (parts, it + 1)
               else if TT_TAG token = LT_ESCAPE
               then (if index + 1 \<ge> length tokens
                     then Inl IndexError
                     else if py_eq (py_token (tokens ! (index + 1))) (PyStr (tag_str LT_INTRPL_END))
                     then parse_interpolation_loop cfg tokens (it + 2) (parts @ [TT_TEXT (tokens ! (index + 1))])
                     else parse_interpolation_loop cfg tokens (it + 1) (parts @ [TT_TEXT token]))
               else parse_interpolation_loop cfg tokens (it + 1) (parts @ [TT_TEXT token])))"
  by pat_completeness auto
termination
  by (relation "measure (\<lambda>(cfg, tokens, it, parts). length tokens - it)") auto

declare parse_interpolation_loop.simps [simp del]

text \<open>After the loop (lines 226 to 230): an empty list of parts is the interpolation error.\<close>

definition parse_interpolation :: "config \<Rightarrow> token list \<Rightarrow> nat \<Rightarrow> error + (string \<times> nat)" where
  "parse_interpolation cfg tokens it =
     (case parse_interpolation_loop cfg tokens it [] of
        Inl e \<Rightarrow> Inl e
      | Inr (parts, it') \<Rightarrow>
          if length parts = 0
          then Inl (InterpolationError ''String interpolation with empty/zero-length variablename found.'')
          else Inr (concat parts, it'))"

definition literal_part :: "string \<Rightarrow> part" where
  "literal_part text = \<lparr>ptype = PT_LITERAL, data = text\<rparr>"

definition reference_part :: "string \<Rightarrow> part" where
  "reference_part name = \<lparr>ptype = PT_REFERENCE, data = name\<rparr>"

text \<open>
  The \<open>for\<close> loop of \<open>_parse\<close> (lines 157 to 195), with \<open>self._has_escapes\<close> as part of the
  state. \<open>tokens_last_index\<close> is \<open>len(tokens) - 1\<close>, an integer.
\<close>

function parse_loop :: "config \<Rightarrow> token list \<Rightarrow> nat \<Rightarrow> part list \<Rightarrow> bool \<Rightarrow> error + (part list \<times> bool)" where
  "parse_loop cfg tokens it parts has_escapes =
     (if it \<ge> length tokens
      then Inr (parts, has_escapes)
      else if TT_TAG (tokens ! it) = LT_LITERAL
      then parse_loop cfg tokens (it + 1) (parts @ [literal_part (TT_TEXT (tokens ! it))]) has_escapes
      else if TT_TAG (tokens ! it) = LT_ESCAPE
      then (if int it = int (length tokens) - 1
            then parse_loop cfg tokens (it + 1) (parts @ [literal_part (TT_TEXT (tokens ! it))]) has_escapes
            else if int it + 1 \<le> int (length tokens) - 1
                    \<and> TT_TAG (tokens ! (it + 1)) \<notin> set ESCAPABLE_LT_TOKENS
            then parse_loop cfg tokens (it + 1) (parts @ [literal_part (TT_TEXT (tokens ! it))]) has_escapes
            else if int it + 2 \<le> int (length tokens) - 1
                    \<and> TT_TAG (tokens ! (it + 1)) = LT_ESCAPE
                    \<and> TT_TAG (tokens ! (it + 2)) \<notin> set ESCAPABLE_LT_TOKENS
            then parse_loop cfg tokens (it + 2)
                   (parts @ [literal_part (TT_TEXT (tokens ! it)),
                             literal_part (TT_TEXT (tokens ! (it + 1)))]) has_escapes
            else parse_loop cfg tokens (it + 2)
                   (parts @ [literal_part (TT_TEXT (tokens ! (it + 1)))]) True)
      else if TT_TAG (tokens ! it) = LT_INTRPL_END
      then parse_loop cfg tokens (it + 1) (parts @ [literal_part (TT_TEXT (tokens ! it))]) has_escapes
      else if TT_TAG (tokens ! it) = LT_INTRPL_START
      then (case parse_interpolation cfg tokens (it + 1) of
              Inl e \<Rightarrow> Inl e
            | Inr (reference_parts, it') \<Rightarrow>
                parse_loop cfg tokens it' (parts @ [reference_part reference_parts]) has_escapes)
      else parse_loop cfg tokens (it + 1) parts has_escapes)"
  by pat_completeness auto
termination
proof -
  have unfold: "parse_interpolation_loop cfg tokens it parts =
     (if it \<ge> length tokens
      then Inl (IncompleteInterpolationError (concat parts) (snd (PARAMETER_INTERPOLATION_SENTINELS cfg)))
      else if TT_TAG (tokens ! it) = LT_INTRPL_END
      then Inr (parts, it + 1)
      else if TT_TAG (tokens ! it) = LT_ESCAPE \<and> it + 1 \<ge> length tokens
      then Inl IndexError
      else parse_interpolation_loop cfg tokens (it + 1) (parts @ [TT_TEXT (tokens ! it)]))"
    for cfg tokens it parts
    by (subst parse_interpolation_loop.simps) (simp add: Let_def py_eq_def py_token_def)
  have loop: "it < it'"
    if "parse_interpolation_loop cfg tokens it parts = Inr (ps, it')" for cfg tokens it parts ps it'
    using that
  proof (induction "length tokens - it" arbitrary: it parts rule: less_induct)
    case less
    from less.prems have in_range: "it < length tokens"
      by (subst (asm) unfold) (simp split: if_splits)
    show ?case
    proof (cases "TT_TAG (tokens ! it) = LT_INTRPL_END")
      case True
      with less.prems in_range show ?thesis
        by (subst (asm) unfold) simp
    next
      case False
      with less.prems in_range
      have "parse_interpolation_loop cfg tokens (it + 1) (parts @ [TT_TEXT (tokens ! it)]) = Inr (ps, it')"
        by (subst (asm) unfold) (simp split: if_splits)
      moreover from in_range have "length tokens - (it + 1) < length tokens - it"
        by simp
      ultimately have "it + 1 < it'"
        by (rule less.hyps[rotated])
      then show ?thesis
        by simp
    qed
  qed
  have advances: "it < it'"
    if "parse_interpolation cfg tokens it = Inr (name, it')" for cfg tokens it name it'
  proof -
    from that obtain ps where "parse_interpolation_loop cfg tokens it [] = Inr (ps, it')"
      by (auto simp: parse_interpolation_def split: sum.splits if_splits)
    then show ?thesis
      by (rule loop)
  qed
  show ?thesis
    by (relation "measure (\<lambda>(cfg, tokens, it, parts, has_escapes). length tokens - it)")
       (auto dest!: advances)
qed

declare parse_loop.simps [simp del]

definition parse :: "config \<Rightarrow> token list \<Rightarrow> error + (part list \<times> bool)" where
  "parse cfg tokens = parse_loop cfg tokens 0 [] False"

subsection \<open>The object (\<open>__init__\<close> and the accessors, lines 94 to 101 and 239 to 253)\<close>

record refvalue =
  self_refs :: "string list option"
  self_string :: string
  self_delim :: string
  self_has_escapes :: bool
  self_tokens :: "token list"
  self_parts :: "part list"

text \<open>
  \<open>get_references\<close> fills \<open>self._refs\<close> on its first call, so it returns the object as well
  as the list.
\<close>

definition get_references :: "refvalue \<Rightarrow> string list \<times> refvalue" where
  "get_references self =
     (case self_refs self of
        None \<Rightarrow>
          (let refs = map data (filter (\<lambda>part. ptype part = PT_REFERENCE) (self_parts self))
           in (refs, self\<lparr>self_refs := Some refs\<rparr>))
      | Some refs \<Rightarrow> (refs, self))"

definition has_escapes :: "refvalue \<Rightarrow> bool" where
  "has_escapes self = self_has_escapes self"

definition has_references :: "refvalue \<Rightarrow> bool \<times> refvalue" where
  "has_references self = (case get_references self of (refs, self') \<Rightarrow> (length refs > 0, self'))"

text \<open>
  \<open>RefValue(string, delim)\<close>: the result is \<open>None\<close> when the lexer does not return, \<open>Inl\<close>
  when the parser raises, and the constructed object otherwise.
\<close>

definition RefValue :: "config \<Rightarrow> string \<Rightarrow> string \<Rightarrow> (error + refvalue) option" where
  "RefValue cfg string delim =
     (case lex cfg string of
        None \<Rightarrow> None
      | Some tokens \<Rightarrow>
          Some (case parse cfg tokens of
                  Inl e \<Rightarrow> Inl e
                | Inr (parts, escapes) \<Rightarrow>
                    Inr (snd (get_references
                           \<lparr>self_refs = None, self_string = string, self_delim = delim,
                            self_has_escapes = escapes, self_tokens = tokens,
                            self_parts = parts\<rparr>))))"

subsection \<open>Resolving and assembling (lines 232 to 237 and 255 to 285)\<close>

text \<open>
  \<open>DictPath\<close> is not part of the module: \<open>DictPath(delim, ref).get_value(context)\<close> is the
  parameter \<open>get_value\<close>, which returns the value or raises (building the path object
  only splits the name and is not a step of its own here). \<open>_resolve\<close> turns its \<open>KeyError\<close>
  into the undefined-variable error and lets any other exception pass.
\<close>

definition resolve :: "(string \<Rightarrow> string \<Rightarrow> 'c \<Rightarrow> pyexc + 'v) \<Rightarrow> refvalue \<Rightarrow> string \<Rightarrow> 'c \<Rightarrow> error + 'v" where
  "resolve get_value self ref context =
     (case get_value (self_delim self) ref context of
        Inr v \<Rightarrow> Inr v
      | Inl KeyError \<Rightarrow> Inl (UndefinedVariableError ref)
      | Inl e \<Rightarrow> Inl (Raised e))"

text \<open>
  What \<open>_assemble\<close> returns is either a string that it has built or taken from the object,
  or the object that the resolver returned, untouched.
\<close>

datatype 'v rendered = RString string | RValue 'v

text \<open>
  The loop of lines 267 to 272. \<open>str\<close> of a resolved value is the parameter \<open>to_str\<close>, which
  returns the string or raises (a \<open>__str__\<close> that raises, or in Python 2 a \<open>unicode\<close> value
  that is not ASCII); nothing catches what it raises, and the loop ends there.
\<close>

fun assemble_parts :: "('v \<Rightarrow> pyexc + string) \<Rightarrow> (string \<Rightarrow> error + 'v) \<Rightarrow> part list \<Rightarrow> string \<Rightarrow> error + string" where
  "assemble_parts to_str resolver [] ret = Inr ret"
| "assemble_parts to_str resolver (part # rest) ret =
     (if ptype part = PT_LITERAL
      then assemble_parts to_str resolver rest (ret @ data part)
      else if ptype part = PT_REFERENCE
      then (case resolver (data part) of
              Inl e \<Rightarrow> Inl e
            | Inr v \<Rightarrow>
                (case to_str v of
                   Inl x \<Rightarrow> Inl (Raised x)
                 | Inr s \<Rightarrow> assemble_parts to_str resolver rest (ret @ s)))
      else assemble_parts to_str resolver rest ret)"

definition assemble :: "('v \<Rightarrow> pyexc + string) \<Rightarrow> (string \<Rightarrow> error + 'v) \<Rightarrow> refvalue \<Rightarrow> (error + 'v rendered) \<times> refvalue" where
  "assemble to_str resolver self =
     (case has_references self of (has_refs1, self1) \<Rightarrow>
        if \<not> has_refs1 \<and> \<not> has_escapes self1
        then (Inr (RString (self_string self1)), self1)
        else (case (if length (self_parts self1) = 1
                    then has_references self1
                    else (False, self1)) of (single, self2) \<Rightarrow>
                if single
                then (map_sum id RValue (resolver (data (self_parts self2 ! 0))), self2)
                else (map_sum id RString (assemble_parts to_str resolver (self_parts self2) []),
                      self2)))"

definition render :: "('v \<Rightarrow> pyexc + string) \<Rightarrow> (string \<Rightarrow> string \<Rightarrow> 'c \<Rightarrow> pyexc + 'v) \<Rightarrow> refvalue \<Rightarrow> 'c \<Rightarrow> (error + 'v rendered) \<times> refvalue" where
  "render to_str get_value self context =
     assemble to_str (\<lambda>s. resolve get_value self s context) self"

text \<open>\<open>sep.join(items)\<close>, and the resolver of \<open>__repr__\<close>, which wraps a name in the sentinels.\<close>

fun py_join :: "string \<Rightarrow> string list \<Rightarrow> string" where
  "py_join sep [] = []"
| "py_join sep [x] = x"
| "py_join sep (x # y # ys) = x @ sep @ py_join sep (y # ys)"

definition do_not_resolve :: "config \<Rightarrow> string \<Rightarrow> error + string" where
  "do_not_resolve cfg s =
     Inr (py_join s [fst (PARAMETER_INTERPOLATION_SENTINELS cfg),
                     snd (PARAMETER_INTERPOLATION_SENTINELS cfg)])"

text \<open>
  The first argument of the format string in \<open>__repr__\<close>: the parts assembled with
  \<open>do_not_resolve\<close>. The resolver returns strings, of which \<open>str\<close> is the identity.
\<close>

definition redisplay :: "config \<Rightarrow> refvalue \<Rightarrow> (error + string rendered) \<times> refvalue" where
  "redisplay cfg self = assemble (\<lambda>s. Inr s) (do_not_resolve cfg) self"

section \<open>Notions of the statements and the proofs\<close>

text \<open>
  The pattern stands in \<open>chars\<close> at \<open>pos\<close>, and the first of the token expressions that does.
\<close>

definition matches_at :: "string \<Rightarrow> string \<Rightarrow> nat \<Rightarrow> bool" where
  "matches_at chars pattern pos =
     (pos + length pattern \<le> length chars \<and> take (length pattern) (drop pos chars) = pattern)"

definition first_match :: "string \<Rightarrow> nat \<Rightarrow> (string \<times> lt_tag) list \<Rightarrow> (string \<times> lt_tag) option" where
  "first_match chars pos exprs = List.find (\<lambda>(pattern, tag). matches_at chars pattern pos) exprs"

text \<open>
  The tokens after the pending literal, if any, has been flushed at a match at \<open>pos\<close>.
\<close>

definition flush_literal :: "string \<Rightarrow> token list \<Rightarrow> nat option \<Rightarrow> nat \<Rightarrow> token list" where
  "flush_literal chars tokens literal_start pos =
     (case literal_start of
        None \<Rightarrow> tokens
      | Some ls \<Rightarrow> tokens @ [(slice chars ls pos, LT_LITERAL)])"

text \<open>
  What holds of every token list of the lexer: a literal token is not empty, and any other
  token is one of the token expressions (its text is the marker of its tag).
\<close>

definition tokens_ok :: "config \<Rightarrow> token list \<Rightarrow> bool" where
  "tokens_ok cfg tokens =
     (\<forall>t \<in> set tokens. (snd t = LT_LITERAL \<longrightarrow> fst t \<noteq> [])
                      \<and> (snd t \<noteq> LT_LITERAL \<longrightarrow> t \<in> set (TOKEN_EXPRS cfg)))"

text \<open>
  The invariant of the \<open>while\<close> loop: the tokens so far spell the input up to the cursor,
  or up to the start of the pending literal, which lies before the end of the input and,
  when it is at the cursor, at a position where no marker stands.
\<close>

definition lex_inv :: "config \<Rightarrow> string \<Rightarrow> nat \<Rightarrow> token list \<Rightarrow> nat option \<Rightarrow> bool" where
  "lex_inv cfg chars pos tokens literal_start =
     (pos \<le> length chars \<and> tokens_ok cfg tokens \<and>
      (case literal_start of
         None \<Rightarrow> concat (map fst tokens) = take pos chars
       | Some ls \<Rightarrow> ls \<le> pos \<and> ls < length chars \<and> concat (map fst tokens) = take ls chars
                   \<and> (ls = pos \<longrightarrow> first_match chars pos (TOKEN_EXPRS cfg) = None)))"

text \<open>
  No marker is the empty string.
\<close>

definition nonempty_patterns :: "config \<Rightarrow> bool" where
  "nonempty_patterns cfg = (\<forall>(pattern, tag) \<in> set (TOKEN_EXPRS cfg). pattern \<noteq> [])"

text \<open>
  What the lexer promises of its result.
\<close>

definition lex_post :: "config \<Rightarrow> string \<Rightarrow> token list \<Rightarrow> bool" where
  "lex_post cfg chars tokens = (concat (map fst tokens) = chars \<and> tokens_ok cfg tokens)"

text \<open>
  None of the three markers occurs in the string.
\<close>

definition marker_free :: "config \<Rightarrow> string \<Rightarrow> bool" where
  "marker_free cfg chars =
     (\<not> sublist (ESCAPE_CHARACTER cfg) chars
      \<and> \<not> sublist (fst (PARAMETER_INTERPOLATION_SENTINELS cfg)) chars
      \<and> \<not> sublist (snd (PARAMETER_INTERPOLATION_SENTINELS cfg)) chars)"

text \<open>
  The tokens from \<open>it\<close> up to the next interpolation end, and the result of the sub-scan
  in closed form.
\<close>

definition interpolation_body :: "token list \<Rightarrow> nat \<Rightarrow> token list" where
  "interpolation_body tokens it = takeWhile (\<lambda>t. TT_TAG t \<noteq> LT_INTRPL_END) (drop it tokens)"

definition sub_scan_result :: "config \<Rightarrow> token list \<Rightarrow> nat \<Rightarrow> string list \<Rightarrow> error + (string list \<times> nat)" where
  "sub_scan_result cfg tokens it parts =
     (if length (interpolation_body tokens it) < length tokens - it
      then Inr (parts @ map TT_TEXT (interpolation_body tokens it),
                it + length (interpolation_body tokens it) + 1)
      else if it < length tokens \<and> TT_TAG (last tokens) = LT_ESCAPE
      then Inl IndexError
      else Inl (IncompleteInterpolationError
                  (concat (parts @ map TT_TEXT (drop it tokens)))
                  (snd (PARAMETER_INTERPOLATION_SENTINELS cfg))))"

text \<open>
  One iteration of the \<open>for\<close> loop of \<open>_parse\<close>: the next state of the iterator, the parts
  appended, and whether \<open>has_escapes\<close> is set; or the error of the sub-scan.
\<close>

definition parse_step :: "config \<Rightarrow> token list \<Rightarrow> nat \<Rightarrow> error + (nat \<times> part list \<times> bool)" where
  "parse_step cfg tokens it =
     (if TT_TAG (tokens ! it) = LT_LITERAL \<or> TT_TAG (tokens ! it) = LT_INTRPL_END
      then Inr (Suc it, [literal_part (TT_TEXT (tokens ! it))], False)
      else if TT_TAG (tokens ! it) = LT_ESCAPE
      then (if Suc it = length tokens \<or> TT_TAG (tokens ! Suc it) \<notin> {LT_ESCAPE, LT_INTRPL_START}
            then Inr (Suc it, [literal_part (TT_TEXT (tokens ! it))], False)
            else if Suc (Suc it) < length tokens \<and> TT_TAG (tokens ! Suc it) = LT_ESCAPE
                    \<and> TT_TAG (tokens ! Suc (Suc it)) \<notin> {LT_ESCAPE, LT_INTRPL_START}
            then Inr (Suc (Suc it), [literal_part (TT_TEXT (tokens ! it)),
                                     literal_part (TT_TEXT (tokens ! Suc it))], False)
            else Inr (Suc (Suc it), [literal_part (TT_TEXT (tokens ! Suc it))], True))
      else (case parse_interpolation cfg tokens (Suc it) of
              Inl e \<Rightarrow> Inl e
            | Inr (name, it') \<Rightarrow> Inr (it', [reference_part name], False)))"

text \<open>
  The list comprehension of \<open>get_references\<close>.
\<close>

definition reference_names :: "part list \<Rightarrow> string list" where
  "reference_names parts = map data (filter (\<lambda>part. ptype part = PT_REFERENCE) parts)"







text \<open>
  The result of a parse that has emitted \<open>parts\<close> and has the flag \<open>escapes\<close>, when the
  parse of the tokens that remain gives \<open>r\<close>.
\<close>

definition after_emitting :: "part list \<Rightarrow> bool \<Rightarrow> error + (part list \<times> bool) \<Rightarrow> error + (part list \<times> bool)" where
  "after_emitting parts escapes r =
     (case r of
        Inl e \<Rightarrow> Inl e
      | Inr (rest, escapes') \<Rightarrow> Inr (parts @ rest, escapes \<or> escapes'))"




section \<open>Properties of the lexer\<close>

text \<open>
  The inner loop finds the first token expression that stands at the cursor. With that,
  the invariant is kept by every iteration, which gives the result of the lexer whenever
  it returns (by fixpoint induction) and that it returns when no marker is empty (by
  induction on the distance to the end of the input).
\<close>

lemma find_upt_first:
  assumes "\<forall>i. start < i \<longrightarrow> \<not> P i" and "start < n"
  shows "List.find P [start ..< n] = (if P start then Some start else None)"
proof -
  from assms(2) have "[start ..< n] = start # [Suc start ..< n]"
    by (simp add: upt_conv_Cons)
  moreover from assms(1) have "List.find P [Suc start ..< n] = None"
    by (simp add: find_None_iff)
  ultimately show ?thesis by simp
qed

lemma py_find_at:
  assumes "pos \<le> length chars"
  shows "py_find chars pattern pos (pos + length pattern) =
           (if matches_at chars pattern pos then int pos else - 1)"
proof -
  let ?P = "\<lambda>i. i + length pattern \<le> min (pos + length pattern) (length chars)
                  \<and> slice chars i (i + length pattern) = pattern"
  have later: "\<forall>i. pos < i \<longrightarrow> \<not> ?P i" by auto
  have range: "pos < Suc (min (pos + length pattern) (length chars))"
    using assms by simp
  have "?P pos = matches_at chars pattern pos"
    by (auto simp: matches_at_def slice_def)
  with find_upt_first[of pos ?P, OF later range] show ?thesis
    by (simp add: py_find_def)
qed

lemma tag_str_nonempty: "tag_str tag \<noteq> []"
  by (cases tag) simp_all

lemma for_token_exprs_first_match:
  assumes "pos \<le> length chars"
  shows "for_token_exprs chars pos exprs (ms, me, tokens, literal_start) =
           (case first_match chars pos exprs of
              None \<Rightarrow> (if exprs = [] then ms else - 1, me, tokens, literal_start)
            | Some (pattern, tag) \<Rightarrow>
                (int pos, int (pos + length pattern),
                 flush_literal chars tokens literal_start pos @ [(pattern, tag)], None))"
proof (induction exprs arbitrary: ms)
  case Nil
  show ?case by (simp add: first_match_def)
next
  case (Cons e exprs)
  obtain pattern tag where e: "e = (pattern, tag)" by (cases e)
  show ?case
  proof (cases "matches_at chars pattern pos")
    case True
    then have "slice chars pos (pos + length pattern) = pattern"
      by (simp add: matches_at_def slice_def)
    with True show ?thesis
      by (simp add: e py_find_at[OF assms] tag_str_nonempty first_match_def flush_literal_def
                    Let_def nat_int_add split: option.splits)
  next
    case False
    have "for_token_exprs chars pos (e # exprs) (ms, me, tokens, literal_start) =
            for_token_exprs chars pos exprs (- 1, me, tokens, literal_start)"
      using False by (simp add: e py_find_at[OF assms])
    also have "\<dots> = (case first_match chars pos exprs of
              None \<Rightarrow> (if exprs = [] then - 1 else - 1, me, tokens, literal_start)
            | Some (pattern, tag) \<Rightarrow>
                (int pos, int (pos + length pattern),
                 flush_literal chars tokens literal_start pos @ [(pattern, tag)], None))"
      by (rule Cons.IH)
    finally show ?thesis
      using False by (simp add: e first_match_def split: option.splits)
  qed
qed

lemma first_match_SomeD:
  assumes "first_match chars pos exprs = Some (pattern, tag)"
  shows "(pattern, tag) \<in> set exprs \<and> matches_at chars pattern pos"
  using assms unfolding first_match_def
  by (induction exprs) (auto split: if_splits)

lemma TOKEN_EXPRS_not_literal: "(pattern, tag) \<in> set (TOKEN_EXPRS cfg) \<Longrightarrow> tag \<noteq> LT_LITERAL"
  by (auto simp: TOKEN_EXPRS_def)

lemma take_slice: "ls \<le> pos \<Longrightarrow> take ls chars @ slice chars ls pos = take pos chars"
  by (metis le_add_diff_inverse slice_def take_add)

lemma take_matches:
  "matches_at chars pattern pos \<Longrightarrow> take pos chars @ pattern = take (pos + length pattern) chars"
  by (metis matches_at_def take_add)

lemma lex_inv_match:
  assumes inv: "lex_inv cfg chars pos tokens literal_start"
    and fm: "first_match chars pos (TOKEN_EXPRS cfg) = Some (pattern, tag)"
  shows "lex_inv cfg chars (pos + length pattern)
           (flush_literal chars tokens literal_start pos @ [(pattern, tag)]) None"
proof -
  from first_match_SomeD[OF fm]
  have mem: "(pattern, tag) \<in> set (TOKEN_EXPRS cfg)" and m: "matches_at chars pattern pos"
    by simp_all
  from m have bound: "pos + length pattern \<le> length chars"
    by (simp add: matches_at_def)
  have tag: "tag \<noteq> LT_LITERAL"
    using mem by (rule TOKEN_EXPRS_not_literal)
  show ?thesis
  proof (cases literal_start)
    case None
    with inv have "concat (map fst tokens) = take pos chars" and "tokens_ok cfg tokens"
      by (simp_all add: lex_inv_def)
    with None bound mem tag take_matches[OF m] show ?thesis
      by (simp add: lex_inv_def flush_literal_def tokens_ok_def)
  next
    case (Some ls)
    with inv fm have ls: "ls \<le> pos" "ls \<noteq> pos" and c: "concat (map fst tokens) = take ls chars"
      and ok: "tokens_ok cfg tokens"
      by (auto simp: lex_inv_def)
    from ls bound have "slice chars ls pos \<noteq> []"
      by (simp add: slice_def)
    moreover have "concat (map fst tokens) @ slice chars ls pos @ pattern = take (pos + length pattern) chars"
      using c take_slice[OF ls(1)] take_matches[OF m] by (metis append.assoc)
    ultimately show ?thesis
      using Some bound mem tag ok
      by (simp add: lex_inv_def flush_literal_def tokens_ok_def)
  qed
qed

lemma lex_loop_returns:
  assumes pats: "nonempty_patterns cfg"
  shows "lex_inv cfg chars pos tokens literal_start \<Longrightarrow>
         \<exists>toks. lex_loop cfg chars pos tokens literal_start = Some toks \<and> lex_post cfg chars toks"
proof (induction "2 * (length chars - pos) + (case literal_start of None \<Rightarrow> 1 | Some ls \<Rightarrow> 0)"
         arbitrary: pos tokens literal_start rule: less_induct)
  case less
  note inv = less.prems
  from inv have pos: "pos \<le> length chars"
    by (simp add: lex_inv_def)
  show ?case
  proof (cases "pos < length chars")
    case False
    with pos have at_end: "pos = length chars" by simp
    show ?thesis
    proof (cases literal_start)
      case None
      with inv at_end show ?thesis
        by (subst lex_loop.simps) (simp add: lex_inv_def lex_post_def)
    next
      case (Some ls)
      with inv at_end have "ls < length chars" "concat (map fst tokens) = take ls chars"
        "tokens_ok cfg tokens"
        by (simp_all add: lex_inv_def)
      with Some at_end show ?thesis
        by (subst lex_loop.simps) (simp add: lex_post_def slice_from_def tokens_ok_def)
    qed
  next
    case True
    show ?thesis
    proof (cases "first_match chars pos (TOKEN_EXPRS cfg)")
      case None
      have exprs: "TOKEN_EXPRS cfg \<noteq> []" by (simp add: TOKEN_EXPRS_def)
      show ?thesis
      proof (cases literal_start)
        case no_literal: None
        have step: "lex_loop cfg chars pos tokens literal_start = lex_loop cfg chars pos tokens (Some pos)"
          using True None no_literal exprs
          by (subst lex_loop.simps) (simp add: for_token_exprs_first_match[OF pos])
        have "lex_inv cfg chars pos tokens (Some pos)"
          using inv True None no_literal by (simp add: lex_inv_def)
        from less.hyps[OF _ this] no_literal step show ?thesis by simp
      next
        case (Some ls)
        have step: "lex_loop cfg chars pos tokens literal_start = lex_loop cfg chars (pos + 1) tokens (Some ls)"
          using True None Some exprs
          by (subst lex_loop.simps) (simp add: for_token_exprs_first_match[OF pos])
        have "lex_inv cfg chars (pos + 1) tokens (Some ls)"
          using inv True Some by (simp add: lex_inv_def)
        from less.hyps[OF _ this] Some step True show ?thesis by simp
      qed
    next
      case (Some e)
      obtain pattern tag where e: "e = (pattern, tag)" by (cases e)
      from Some e have fm: "first_match chars pos (TOKEN_EXPRS cfg) = Some (pattern, tag)" by simp
      from first_match_SomeD[OF fm] pats have nonempty: "pattern \<noteq> []"
        by (auto simp: nonempty_patterns_def)
      have step: "lex_loop cfg chars pos tokens literal_start =
                    lex_loop cfg chars (pos + length pattern)
                      (flush_literal chars tokens literal_start pos @ [(pattern, tag)]) None"
        using True fm
        by (subst lex_loop.simps) (simp add: for_token_exprs_first_match[OF pos] nat_int_add)
      from nonempty True
      have "2 * (length chars - (pos + length pattern)) + 1
              < 2 * (length chars - pos) + (case literal_start of None \<Rightarrow> 1 | Some ls \<Rightarrow> 0)"
        by (cases pattern) (auto split: option.splits)
      from less.hyps[of "pos + length pattern" None, simplified, OF this[simplified] lex_inv_match[OF inv fm]] step
      show ?thesis by simp
    qed
  qed
qed

lemma lex_inv_initial: "lex_inv cfg chars 0 [] None"
  by (simp add: lex_inv_def tokens_ok_def)

lemma lex_step:
  assumes pos: "pos < length chars" and inv: "lex_inv cfg chars pos tokens literal_start"
  shows "\<exists>pos' tokens' literal_start'.
           lex_inv cfg chars pos' tokens' literal_start' \<and>
           (case for_token_exprs chars pos (TOKEN_EXPRS cfg) (- 1, - 1, tokens, literal_start) of
              (match_start, match_end, tokens1, literal_start1) \<Rightarrow>
                if match_start = - 1 \<and> literal_start1 = None
                then f cfg chars pos tokens1 (Some pos)
                else if match_start \<ge> 0
                then f cfg chars (nat match_end) tokens1 literal_start1
                else f cfg chars (pos + 1) tokens1 literal_start1)
           = (f cfg chars pos' tokens' literal_start' :: 'a)"
proof -
  from pos have le: "pos \<le> length chars" by simp
  have exprs: "TOKEN_EXPRS cfg \<noteq> []" by (simp add: TOKEN_EXPRS_def)
  show ?thesis
  proof (cases "first_match chars pos (TOKEN_EXPRS cfg)")
    case None
    show ?thesis
    proof (cases literal_start)
      case no_literal: None
      have "lex_inv cfg chars pos tokens (Some pos)"
        using inv pos None no_literal by (simp add: lex_inv_def)
      moreover have "(case for_token_exprs chars pos (TOKEN_EXPRS cfg) (- 1, - 1, tokens, literal_start) of
              (match_start, match_end, tokens1, literal_start1) \<Rightarrow>
                if match_start = - 1 \<and> literal_start1 = None
                then f cfg chars pos tokens1 (Some pos)
                else if match_start \<ge> 0
                then f cfg chars (nat match_end) tokens1 literal_start1
                else f cfg chars (pos + 1) tokens1 literal_start1) = f cfg chars pos tokens (Some pos)"
        using None no_literal exprs by (simp add: for_token_exprs_first_match[OF le])
      ultimately show ?thesis by blast
    next
      case (Some ls)
      have "lex_inv cfg chars (pos + 1) tokens (Some ls)"
        using inv pos Some by (simp add: lex_inv_def)
      moreover have "(case for_token_exprs chars pos (TOKEN_EXPRS cfg) (- 1, - 1, tokens, literal_start) of
              (match_start, match_end, tokens1, literal_start1) \<Rightarrow>
                if match_start = - 1 \<and> literal_start1 = None
                then f cfg chars pos tokens1 (Some pos)
                else if match_start \<ge> 0
                then f cfg chars (nat match_end) tokens1 literal_start1
                else f cfg chars (pos + 1) tokens1 literal_start1) = f cfg chars (pos + 1) tokens (Some ls)"
        using None Some exprs by (simp add: for_token_exprs_first_match[OF le])
      ultimately show ?thesis by blast
    qed
  next
    case (Some e)
    obtain pattern tag where e: "e = (pattern, tag)" by (cases e)
    from Some e have fm: "first_match chars pos (TOKEN_EXPRS cfg) = Some (pattern, tag)" by simp
    have "(case for_token_exprs chars pos (TOKEN_EXPRS cfg) (- 1, - 1, tokens, literal_start) of
              (match_start, match_end, tokens1, literal_start1) \<Rightarrow>
                if match_start = - 1 \<and> literal_start1 = None
                then f cfg chars pos tokens1 (Some pos)
                else if match_start \<ge> 0
                then f cfg chars (nat match_end) tokens1 literal_start1
                else f cfg chars (pos + 1) tokens1 literal_start1)
          = f cfg chars (pos + length pattern)
              (flush_literal chars tokens literal_start pos @ [(pattern, tag)]) None"
      using fm by (simp add: for_token_exprs_first_match[OF le] nat_int_add)
    with lex_inv_match[OF inv fm] show ?thesis by blast
  qed
qed

lemma lex_loop_partial:
  assumes ret: "lex_loop cfg chars pos tokens literal_start = Some toks"
    and inv0: "lex_inv cfg chars pos tokens literal_start"
  shows "lex_post cfg chars toks"
proof -
  have "lex_inv cfg chars pos tokens literal_start \<longrightarrow> lex_post cfg chars toks"
  proof (rule lex_loop.raw_induct[where P = "\<lambda>cfg chars pos tokens literal_start toks.
            lex_inv cfg chars pos tokens literal_start \<longrightarrow> lex_post cfg chars toks", OF _ ret])
    fix f :: "config \<Rightarrow> string \<Rightarrow> nat \<Rightarrow> token list \<Rightarrow> nat option \<Rightarrow> token list option"
    fix cfg chars pos tokens literal_start toks
    assume IH: "\<And>cfg chars pos tokens literal_start toks.
                  f cfg chars pos tokens literal_start = Some toks \<Longrightarrow>
                  lex_inv cfg chars pos tokens literal_start \<longrightarrow> lex_post cfg chars toks"
    assume body: "(if pos < length chars
      then case for_token_exprs chars pos (TOKEN_EXPRS cfg) (- 1, - 1, tokens, literal_start) of
           (match_start, match_end, tokens1, literal_start1) \<Rightarrow>
             if match_start = - 1 \<and> literal_start1 = None
             then f cfg chars pos tokens1 (Some pos)
             else if 0 \<le> match_start
                  then f cfg chars (nat match_end) tokens1 literal_start1
                  else f cfg chars (pos + 1) tokens1 literal_start1
      else case literal_start of None \<Rightarrow> Some tokens
           | Some ls \<Rightarrow> Some (tokens @ [(slice_from chars ls, LT_LITERAL)])) = Some toks"
    show "lex_inv cfg chars pos tokens literal_start \<longrightarrow> lex_post cfg chars toks"
    proof
      assume inv: "lex_inv cfg chars pos tokens literal_start"
      show "lex_post cfg chars toks"
      proof (cases "pos < length chars")
        case True
        from lex_step[OF True inv, of f] body True
        obtain pos' tokens' literal_start'
          where "lex_inv cfg chars pos' tokens' literal_start'"
            and "f cfg chars pos' tokens' literal_start' = Some toks"
          by auto
        then show ?thesis
          using IH by blast
      next
        case False
        with inv have at_end: "pos = length chars"
          by (simp add: lex_inv_def)
        show ?thesis
        proof (cases literal_start)
          case None
          with inv at_end body show ?thesis
            by (auto simp: lex_inv_def lex_post_def)
        next
          case (Some ls)
          with inv at_end have "ls < length chars" "concat (map fst tokens) = take ls chars"
            "tokens_ok cfg tokens"
            by (simp_all add: lex_inv_def)
          with Some at_end body show ?thesis
            by (auto simp: lex_post_def slice_from_def tokens_ok_def)
        qed
      qed
    qed
  qed
  with inv0 show ?thesis by simp
qed

lemma lex_returns_post:
  "lex cfg chars = Some toks \<Longrightarrow> lex_post cfg chars toks"
  unfolding lex_def by (erule lex_loop_partial) (rule lex_inv_initial)

lemma matches_at_sublist:
  assumes "matches_at chars pattern pos"
  shows "sublist pattern chars"
proof -
  from assms have "take (length pattern) (drop pos chars) = pattern"
    by (simp add: matches_at_def)
  then have "chars = take pos chars @ pattern @ drop (length pattern) (drop pos chars)"
    by (metis append_take_drop_id)
  then show ?thesis
    unfolding sublist_def by blast
qed

lemma marker_free_no_match:
  "marker_free cfg chars \<Longrightarrow> first_match chars pos (TOKEN_EXPRS cfg) = None"
  by (auto simp: first_match_def TOKEN_EXPRS_def marker_free_def dest: matches_at_sublist)

lemma lex_loop_marker_free:
  assumes free: "marker_free cfg chars" and nonempty: "chars \<noteq> []"
  shows "pos \<le> length chars \<Longrightarrow> lex_loop cfg chars pos [] (Some 0) = Some [(chars, LT_LITERAL)]"
proof (induction "length chars - pos" arbitrary: pos)
  case 0
  then have "pos = length chars" by simp
  then show ?case
    by (subst lex_loop.simps) (simp add: slice_from_def)
next
  case (Suc n)
  then have pos: "pos < length chars" and le: "pos \<le> length chars" and n: "n = length chars - (pos + 1)"
    by simp_all
  have exprs: "TOKEN_EXPRS cfg \<noteq> []" by (simp add: TOKEN_EXPRS_def)
  have "lex_loop cfg chars pos [] (Some 0) = lex_loop cfg chars (pos + 1) [] (Some 0)"
    using pos exprs marker_free_no_match[OF free, of pos]
    by (subst lex_loop.simps) (simp add: for_token_exprs_first_match[OF le])
  also have "\<dots> = Some [(chars, LT_LITERAL)]"
    using n pos by (intro Suc.hyps(1)) simp_all
  finally show ?case .
qed

lemma lex_marker_free:
  assumes "marker_free cfg chars"
  shows "lex cfg chars = Some (if chars = [] then [] else [(chars, LT_LITERAL)])"
proof (cases "chars = []")
  case True
  then show ?thesis
    unfolding lex_def by (subst lex_loop.simps) simp
next
  case False
  have exprs: "TOKEN_EXPRS cfg \<noteq> []" by (simp add: TOKEN_EXPRS_def)
  have "lex_loop cfg chars 0 [] None = lex_loop cfg chars 0 [] (Some 0)"
    using False exprs marker_free_no_match[OF assms, of 0]
    by (subst lex_loop.simps) (simp add: for_token_exprs_first_match)
  with lex_loop_marker_free[OF assms False, of 0] False show ?thesis
    by (simp add: lex_def)
qed

section \<open>Properties of the parser\<close>

text \<open>
  The comparison of line 214 is never true, which leaves the sub-scan with three branches
  and a closed form. The main loop is an iteration of \<open>parse_step\<close>; its properties follow
  by induction on the number of tokens left.
\<close>

lemma token_is_not_a_tag: "\<not> py_eq (py_token t) (PyStr s)"
  by (simp add: py_eq_def py_token_def)

lemma parse_interpolation_loop_unfold:
  "parse_interpolation_loop cfg tokens it parts =
     (if it \<ge> length tokens
      then Inl (IncompleteInterpolationError (concat parts) (snd (PARAMETER_INTERPOLATION_SENTINELS cfg)))
      else if TT_TAG (tokens ! it) = LT_INTRPL_END
      then Inr (parts, it + 1)
      else if TT_TAG (tokens ! it) = LT_ESCAPE \<and> it + 1 \<ge> length tokens
      then Inl IndexError
      else parse_interpolation_loop cfg tokens (it + 1) (parts @ [TT_TEXT (tokens ! it)]))"
  by (subst parse_interpolation_loop.simps) (simp add: Let_def token_is_not_a_tag)

lemma interpolation_body_beyond: "length tokens \<le> it \<Longrightarrow> interpolation_body tokens it = []"
  by (simp add: interpolation_body_def)

lemma interpolation_body_end:
  "it < length tokens \<Longrightarrow> TT_TAG (tokens ! it) = LT_INTRPL_END \<Longrightarrow> interpolation_body tokens it = []"
  by (simp add: interpolation_body_def Cons_nth_drop_Suc[symmetric])

lemma interpolation_body_step:
  "it < length tokens \<Longrightarrow> TT_TAG (tokens ! it) \<noteq> LT_INTRPL_END \<Longrightarrow>
     interpolation_body tokens it = tokens ! it # interpolation_body tokens (Suc it)"
  by (simp add: interpolation_body_def Cons_nth_drop_Suc[symmetric])

lemma last_is_nth: "it < length tokens \<Longrightarrow> length tokens \<le> Suc it \<Longrightarrow> last tokens = tokens ! it"
proof -
  assume a: "it < length tokens" "length tokens \<le> Suc it"
  then have "length tokens - 1 = it" by simp
  moreover from a have "tokens \<noteq> []" by auto
  ultimately show ?thesis by (simp add: last_conv_nth)
qed

lemma sub_scan_result_beyond:
  "length tokens \<le> it \<Longrightarrow> sub_scan_result cfg tokens it parts =
     Inl (IncompleteInterpolationError (concat parts) (snd (PARAMETER_INTERPOLATION_SENTINELS cfg)))"
  by (simp add: sub_scan_result_def interpolation_body_beyond)

lemma sub_scan_result_end:
  "it < length tokens \<Longrightarrow> TT_TAG (tokens ! it) = LT_INTRPL_END \<Longrightarrow>
     sub_scan_result cfg tokens it parts = Inr (parts, it + 1)"
  by (simp add: sub_scan_result_def interpolation_body_end)

lemma sub_scan_result_last_escape:
  assumes "it < length tokens" "TT_TAG (tokens ! it) = LT_ESCAPE" "length tokens \<le> Suc it"
  shows "sub_scan_result cfg tokens it parts = Inl IndexError"
proof -
  have "interpolation_body tokens it = tokens ! it # interpolation_body tokens (Suc it)"
    using assms by (simp add: interpolation_body_step)
  moreover have "interpolation_body tokens (Suc it) = []"
    using assms(3) by (rule interpolation_body_beyond)
  moreover have "length tokens - it = 1"
    using assms by simp
  ultimately show ?thesis
    using assms by (simp add: sub_scan_result_def last_is_nth)
qed

lemma sub_scan_result_step:
  assumes "it < length tokens" "TT_TAG (tokens ! it) \<noteq> LT_INTRPL_END"
    and "\<not> (TT_TAG (tokens ! it) = LT_ESCAPE \<and> length tokens \<le> Suc it)"
  shows "sub_scan_result cfg tokens it parts =
           sub_scan_result cfg tokens (Suc it) (parts @ [TT_TEXT (tokens ! it)])"
proof (cases "length tokens \<le> Suc it")
  case True
  with assms have ne: "TT_TAG (last tokens) \<noteq> LT_ESCAPE"
    by (simp add: last_is_nth)
  have b: "interpolation_body tokens it = [tokens ! it]"
    using assms True by (simp add: interpolation_body_step interpolation_body_beyond)
  have d: "drop it tokens = [tokens ! it]"
    using assms(1) True by (simp add: Cons_nth_drop_Suc[symmetric])
  from True assms(1) have "length tokens - it = 1" by simp
  with ne b d True show ?thesis
    by (simp add: sub_scan_result_def interpolation_body_beyond)
next
  case False
  have b: "interpolation_body tokens it = tokens ! it # interpolation_body tokens (Suc it)"
    using assms by (simp add: interpolation_body_step)
  have d: "drop it tokens = tokens ! it # drop (Suc it) tokens"
    using assms(1) by (simp add: Cons_nth_drop_Suc)
  from False have "length tokens - it = Suc (length tokens - Suc it)" by simp
  with False assms(1) show ?thesis
    by (simp add: sub_scan_result_def b d)
qed

lemma parse_interpolation_loop_closed:
  "parse_interpolation_loop cfg tokens it parts = sub_scan_result cfg tokens it parts"
proof (induction "length tokens - it" arbitrary: it parts)
  case 0
  then have "length tokens \<le> it" by simp
  then show ?case
    by (subst parse_interpolation_loop_unfold) (simp add: sub_scan_result_beyond)
next
  case (Suc n)
  then have in_range: "it < length tokens" and n: "n = length tokens - Suc it"
    by simp_all
  show ?case
  proof (cases "TT_TAG (tokens ! it) = LT_INTRPL_END")
    case True
    with in_range show ?thesis
      by (subst parse_interpolation_loop_unfold) (simp add: sub_scan_result_end)
  next
    case False
    note not_end = this
    show ?thesis
    proof (cases "TT_TAG (tokens ! it) = LT_ESCAPE \<and> length tokens \<le> Suc it")
      case True
      with in_range not_end show ?thesis
        by (subst parse_interpolation_loop_unfold) (simp add: sub_scan_result_last_escape)
    next
      case False
      have "parse_interpolation_loop cfg tokens it parts =
              parse_interpolation_loop cfg tokens (Suc it) (parts @ [TT_TEXT (tokens ! it)])"
        using in_range not_end False
        by (subst parse_interpolation_loop_unfold) auto
      also have "\<dots> = sub_scan_result cfg tokens (Suc it) (parts @ [TT_TEXT (tokens ! it)])"
        using n by (rule Suc.hyps(1))
      also have "\<dots> = sub_scan_result cfg tokens it parts"
        using in_range not_end False by (rule sub_scan_result_step[symmetric])
      finally show ?thesis .
    qed
  qed
qed

lemma interpolation_segment:
  assumes "length (interpolation_body tokens start) < length tokens - start"
  shows "drop start tokens
           = interpolation_body tokens start
             @ tokens ! (start + length (interpolation_body tokens start))
             # drop (Suc (start + length (interpolation_body tokens start))) tokens"
    and "TT_TAG (tokens ! (start + length (interpolation_body tokens start))) = LT_INTRPL_END"
    and "start + length (interpolation_body tokens start) < length tokens"
proof -
  let ?P = "\<lambda>t. TT_TAG t \<noteq> LT_INTRPL_END"
  let ?xs = "drop start tokens"
  let ?n = "length (takeWhile ?P ?xs)"
  from assms have n: "?n < length ?xs"
    by (simp add: interpolation_body_def)
  then show b: "start + length (interpolation_body tokens start) < length tokens"
    by (simp add: interpolation_body_def)
  have "?xs = takeWhile ?P ?xs @ dropWhile ?P ?xs"
    by simp
  also have "dropWhile ?P ?xs = drop ?n ?xs"
    by (rule dropWhile_eq_drop)
  also have "drop ?n ?xs = drop (start + ?n) tokens"
    by (simp add: add.commute)
  also have "\<dots> = tokens ! (start + ?n) # drop (Suc (start + ?n)) tokens"
    using b by (simp add: Cons_nth_drop_Suc interpolation_body_def)
  finally show "drop start tokens
           = interpolation_body tokens start
             @ tokens ! (start + length (interpolation_body tokens start))
             # drop (Suc (start + length (interpolation_body tokens start))) tokens"
    by (simp add: interpolation_body_def)
  from n have "\<not> ?P (?xs ! ?n)"
    by (rule nth_length_takeWhile)
  moreover from b have "?xs ! ?n = tokens ! (start + ?n)"
    by (simp add: interpolation_body_def)
  ultimately show "TT_TAG (tokens ! (start + length (interpolation_body tokens start))) = LT_INTRPL_END"
    by (simp add: interpolation_body_def)
qed

lemma parse_interpolation_Inr:
  assumes "parse_interpolation cfg tokens start = Inr (name, it')"
  shows "length (interpolation_body tokens start) < length tokens - start"
    and "name = concat (map TT_TEXT (interpolation_body tokens start))"
    and "it' = Suc (start + length (interpolation_body tokens start))"
  using assms
  by (auto simp: parse_interpolation_def parse_interpolation_loop_closed sub_scan_result_def
           split: if_splits)

lemma parse_interpolation_advances:
  assumes "parse_interpolation cfg tokens it = Inr (name, it')"
  shows "it < it' \<and> it' \<le> length tokens"
proof -
  note r = parse_interpolation_Inr[OF assms]
  from interpolation_segment(3)[OF r(1)] r(3) show ?thesis
    by simp
qed

lemma tag_cases:
  "tag = LT_LITERAL \<or> tag = LT_INTRPL_END \<or> tag = LT_ESCAPE \<or> tag = LT_INTRPL_START"
  by (cases tag) simp_all

lemma parse_loop_done:
  "length tokens \<le> it \<Longrightarrow> parse_loop cfg tokens it parts escapes = Inr (parts, escapes)"
  by (subst parse_loop.simps) simp

lemma parse_loop_step:
  assumes "it < length tokens"
  shows "parse_loop cfg tokens it parts escapes =
           (case parse_step cfg tokens it of
              Inl e \<Rightarrow> Inl e
            | Inr (it', new, escaping) \<Rightarrow>
                parse_loop cfg tokens it' (parts @ new) (escapes \<or> escaping))"
proof -
  consider (is_lit) "TT_TAG (tokens ! it) = LT_LITERAL" | (is_end) "TT_TAG (tokens ! it) = LT_INTRPL_END"
    | (is_esc) "TT_TAG (tokens ! it) = LT_ESCAPE" | (is_start) "TT_TAG (tokens ! it) = LT_INTRPL_START"
    using tag_cases by blast
  then show ?thesis
  proof cases
    case is_lit
    with assms show ?thesis
      by (subst parse_loop.simps) (simp add: parse_step_def)
  next
    case is_end
    with assms show ?thesis
      by (subst parse_loop.simps) (simp add: parse_step_def)
  next
    case is_start
    with assms show ?thesis
      by (subst parse_loop.simps) (simp add: parse_step_def split: sum.splits)
  next
    case is_esc
    have last: "(int it = int (length tokens) - 1) = (Suc it = length tokens)"
      by auto
    have one: "(int it + 1 \<le> int (length tokens) - 1) = (Suc it < length tokens)"
      by auto
    have two: "(int it + 2 \<le> int (length tokens) - 1) = (Suc (Suc it) < length tokens)"
      by auto
    from is_esc assms show ?thesis
      by (subst parse_loop.simps)
         (auto simp: parse_step_def last one two ESCAPABLE_LT_TOKENS_def)
  qed
qed

lemma parse_step_advances:
  "parse_step cfg tokens it = Inr (it', new, escaping) \<Longrightarrow> it < it'"
  by (auto simp: parse_step_def split: if_splits sum.splits dest: parse_interpolation_advances)

lemma parse_loop_prefix:
  "parse_loop cfg tokens it parts escapes = Inr (ps, escapes') \<Longrightarrow> prefix parts ps"
proof (induction "length tokens - it" arbitrary: it parts escapes rule: less_induct)
  case less
  show ?case
  proof (cases "it < length tokens")
    case False
    with less.prems show ?thesis
      by (simp add: parse_loop_done)
  next
    case True
    from less.prems obtain it' new escaping
      where st: "parse_step cfg tokens it = Inr (it', new, escaping)"
        and r: "parse_loop cfg tokens it' (parts @ new) (escapes \<or> escaping) = Inr (ps, escapes')"
      by (auto simp: parse_loop_step[OF True] split: sum.splits)
    from parse_step_advances[OF st] True have "length tokens - it' < length tokens - it"
      by simp
    from less.hyps[OF this r] show ?thesis
      by (rule append_prefixD)
  qed
qed





lemma parse_literal:
  "parse cfg (if chars = [] then [] else [(chars, LT_LITERAL)])
     = Inr (if chars = [] then [] else [literal_part chars], False)"
  by (simp add: parse_def parse_loop_done parse_loop_step parse_step_def TT_TAG_def TT_TEXT_def)

lemma after_emitting_Nil: "after_emitting [] False r = r"
  by (simp add: after_emitting_def split: sum.splits)

lemma after_emitting_twice:
  "after_emitting parts escapes (after_emitting new escaping r)
     = after_emitting (parts @ new) (escapes \<or> escaping) r"
  by (simp add: after_emitting_def split: sum.splits)

lemma parse_loop_accumulate:
  "parse_loop cfg tokens it parts escapes
     = after_emitting parts escapes (parse_loop cfg tokens it [] False)"
proof (induction "length tokens - it" arbitrary: it parts escapes rule: less_induct)
  case less
  show ?case
  proof (cases "it < length tokens")
    case False
    then show ?thesis
      by (simp add: parse_loop_done after_emitting_def)
  next
    case True
    show ?thesis
    proof (cases "parse_step cfg tokens it")
      case (Inl e)
      with True show ?thesis
        by (simp add: parse_loop_step after_emitting_def)
    next
      case (Inr step)
      obtain it' new escaping where step: "step = (it', new, escaping)"
        by (cases step)
      from parse_step_advances[of cfg tokens it it' new escaping] Inr step True
      have m: "length tokens - it' < length tokens - it"
        by simp
      have "parse_loop cfg tokens it parts escapes
              = parse_loop cfg tokens it' (parts @ new) (escapes \<or> escaping)"
        using True Inr step by (simp add: parse_loop_step)
      also have "\<dots> = after_emitting (parts @ new) (escapes \<or> escaping)
                          (parse_loop cfg tokens it' [] False)"
        by (rule less.hyps[OF m])
      also have "\<dots> = after_emitting parts escapes
                          (after_emitting new escaping (parse_loop cfg tokens it' [] False))"
        by (simp only: after_emitting_twice)
      also have "after_emitting new escaping (parse_loop cfg tokens it' [] False)
                   = parse_loop cfg tokens it' ([] @ new) (False \<or> escaping)"
        using less.hyps[OF m, of "[] @ new" "False \<or> escaping"] by simp
      also have "\<dots> = parse_loop cfg tokens it [] False"
        using True Inr step by (simp add: parse_loop_step)
      finally show ?thesis .
    qed
  qed
qed

lemma interpolation_body_drop:
  "interpolation_body (drop k tokens) j = interpolation_body tokens (k + j)"
  by (simp add: interpolation_body_def add.commute)

lemma sub_scan_result_drop:
  "sub_scan_result cfg (drop k tokens) j parts
     = map_sum id (\<lambda>(ps, it'). (ps, it' - k)) (sub_scan_result cfg tokens (k + j) parts)"
proof -
  have l: "last (drop k tokens) = last tokens" if "k + j < length tokens"
    using that by (simp add: last_drop)
  have d: "drop j (drop k tokens) = drop (k + j) tokens"
    by (simp add: add.commute)
  have n: "length (drop k tokens) - j = length tokens - (k + j)"
    by simp
  have r: "(j < length (drop k tokens)) = (k + j < length tokens)"
    by auto
  show ?thesis
    unfolding sub_scan_result_def interpolation_body_drop n r d
    using l by auto
qed

lemma parse_interpolation_drop:
  "parse_interpolation cfg (drop k tokens) j
     = map_sum id (\<lambda>(name, it'). (name, it' - k)) (parse_interpolation cfg tokens (k + j))"
  unfolding parse_interpolation_def parse_interpolation_loop_closed sub_scan_result_drop
  by (cases "sub_scan_result cfg tokens (k + j) []") (auto split: if_splits)

lemma parse_step_drop:
  assumes "k + i < length tokens"
  shows "parse_step cfg (drop k tokens) i
           = map_sum id (\<lambda>(it', new, escaping). (it' - k, new, escaping))
               (parse_step cfg tokens (k + i))"
proof -
  have n0: "drop k tokens ! i = tokens ! (k + i)"
    using assms by simp
  have n1: "drop k tokens ! Suc i = tokens ! Suc (k + i)" if "Suc (k + i) < length tokens"
    using that by simp
  have n2: "drop k tokens ! Suc (Suc i) = tokens ! Suc (Suc (k + i))"
    if "Suc (Suc (k + i)) < length tokens"
    using that by simp
  have l1: "(Suc i = length (drop k tokens)) = (Suc (k + i) = length tokens)"
    using assms by auto
  have l2: "(Suc (Suc i) < length (drop k tokens)) = (Suc (Suc (k + i)) < length tokens)"
    by auto
  have p: "parse_interpolation cfg (drop k tokens) (Suc i)
             = map_sum id (\<lambda>(name, it'). (name, it' - k)) (parse_interpolation cfg tokens (Suc (k + i)))"
    using parse_interpolation_drop[of cfg k tokens "Suc i"] by simp
  show ?thesis
  proof (cases "Suc (k + i) < length tokens")
    case False
    with assms have e: "Suc (k + i) = length tokens" by simp
    show ?thesis
      unfolding parse_step_def n0 l1 l2 p using e
      by (cases "parse_interpolation cfg tokens (Suc (k + i))") (auto split: sum.splits)
  next
    case True
    note one = this
    show ?thesis
    proof (cases "Suc (Suc (k + i)) < length tokens")
      case False
      then show ?thesis
        unfolding parse_step_def n0 n1[OF one] l1 l2 p
        by (cases "parse_interpolation cfg tokens (Suc (k + i))") (auto split: sum.splits)
    next
      case True
      then show ?thesis
        unfolding parse_step_def n0 n1[OF one] n2[OF True] l1 l2 p
        by (cases "parse_interpolation cfg tokens (Suc (k + i))") (auto split: sum.splits)
    qed
  qed
qed

lemma parse_loop_drop:
  "parse_loop cfg (drop k tokens) i parts escapes = parse_loop cfg tokens (k + i) parts escapes"
proof (induction "length tokens - (k + i)" arbitrary: i parts escapes rule: less_induct)
  case less
  show ?case
  proof (cases "k + i < length tokens")
    case False
    then have "length (drop k tokens) \<le> i" "length tokens \<le> k + i"
      by simp_all
    then show ?thesis
      by (simp add: parse_loop_done)
  next
    case True
    then have here: "i < length (drop k tokens)"
      by simp
    show ?thesis
    proof (cases "parse_step cfg tokens (k + i)")
      case (Inl e)
      with True here show ?thesis
        by (simp add: parse_loop_step parse_step_drop)
    next
      case (Inr step)
      obtain it' new escaping where step: "step = (it', new, escaping)"
        by (cases step)
      from parse_step_advances[of cfg tokens "k + i" it' new escaping] Inr step
      have adv: "k + i < it'"
        by simp
      with True have m: "length tokens - (k + (it' - k)) < length tokens - (k + i)"
        by simp
      from adv have again: "k + (it' - k) = it'"
        by simp
      have "parse_loop cfg (drop k tokens) i parts escapes
              = parse_loop cfg (drop k tokens) (it' - k) (parts @ new) (escapes \<or> escaping)"
        using here True Inr step by (simp add: parse_loop_step parse_step_drop)
      also have "\<dots> = parse_loop cfg tokens (k + (it' - k)) (parts @ new) (escapes \<or> escaping)"
        by (rule less.hyps[OF m])
      also have "\<dots> = parse_loop cfg tokens (k + i) parts escapes"
        using True Inr step again by (simp add: parse_loop_step)
      finally show ?thesis .
    qed
  qed
qed

lemma parse_loop_rest:
  "parse_loop cfg tokens it parts escapes
     = after_emitting parts escapes (parse cfg (drop it tokens))"
proof -
  have "parse cfg (drop it tokens) = parse_loop cfg tokens it [] False"
    using parse_loop_drop[of cfg it tokens 0 "[]" False] by (simp add: parse_def)
  then show ?thesis
    using parse_loop_accumulate[of cfg tokens it parts escapes] by simp
qed

section \<open>Properties of the object and the assembler\<close>

text \<open>
  The constructor fills \<open>self._refs\<close>, so the accessors leave a constructed object as it is
  and \<open>_assemble\<close> is a function of the parts, the flag and the resolver.
\<close>

lemma RefValue_constructed:
  assumes "RefValue cfg string delim = Some (Inr self)"
  shows "lex cfg string = Some (self_tokens self)"
    and "parse cfg (self_tokens self) = Inr (self_parts self, self_has_escapes self)"
    and "self_string self = string"
    and "self_delim self = delim"
    and "self_refs self = Some (reference_names (self_parts self))"
  using assms
  by (auto simp: RefValue_def get_references_def reference_names_def Let_def
           split: option.splits sum.splits)

lemma get_references_memo:
  "self_refs self = Some refs \<Longrightarrow> get_references self = (refs, self)"
  by (simp add: get_references_def)

lemma has_references_memo:
  "self_refs self = Some refs \<Longrightarrow> has_references self = (refs \<noteq> [], self)"
  by (simp add: has_references_def get_references_memo)

lemma assemble_memo:
  assumes "self_refs self = Some (reference_names (self_parts self))"
  shows "assemble to_str resolver self =
           (if reference_names (self_parts self) = [] \<and> \<not> self_has_escapes self
            then Inr (RString (self_string self))
            else if length (self_parts self) = 1 \<and> reference_names (self_parts self) \<noteq> []
            then map_sum id RValue (resolver (data (self_parts self ! 0)))
            else map_sum id RString (assemble_parts to_str resolver (self_parts self) []),
            self)"
  by (simp add: assemble_def has_references_memo[OF assms] has_escapes_def)

lemma single_reference_iff:
  "(length parts = 1 \<and> reference_names parts \<noteq> []) = (\<exists>name. parts = [reference_part name])"
proof
  assume "length parts = 1 \<and> reference_names parts \<noteq> []"
  then obtain p where "parts = [p]" and "ptype p = PT_REFERENCE"
    by (cases parts) (auto simp: reference_names_def split: if_splits)
  then have "parts = [reference_part (data p)]"
    by (simp add: reference_part_def)
  then show "\<exists>name. parts = [reference_part name]" ..
next
  assume "\<exists>name. parts = [reference_part name]"
  then show "length parts = 1 \<and> reference_names parts \<noteq> []"
    by (auto simp: reference_names_def reference_part_def)
qed

lemma map_sum_RString_neq: "map_sum id RString x \<noteq> Inr (RValue v)"
  by (cases x) simp_all

lemma resolve_Inr: "resolve get_value self ref context = Inr v \<longleftrightarrow> get_value (self_delim self) ref context = Inr v"
  by (auto simp: resolve_def split: sum.splits pyexc.splits)

lemma ptype_cases: "ptype part = PT_LITERAL \<or> ptype part = PT_REFERENCE"
  by (cases "ptype part") simp_all






lemma reference_names_Nil_iff:
  "reference_names parts = [] \<longleftrightarrow> (\<forall>part \<in> set parts. ptype part \<noteq> PT_REFERENCE)"
  by (simp add: reference_names_def filter_empty_conv)

lemma resolve_isl:
  "isl (resolve get_value self ref context) = isl (get_value (self_delim self) ref context)"
  by (simp add: resolve_def split: sum.splits pyexc.splits)




section \<open>Properties of the redisplay\<close>





lemma py_join_pair: "py_join sep [a, b] = a @ sep @ b"
  by simp















section \<open>The claims\<close>

text \<open>
  The examples take \<open>default_config\<close>, the integers as the values of the context, and a
  lookup that knows the name \<open>answer\<close>, or none at all, or raises as \<open>example_lookup\<close> does.
\<close>

text \<open>
  C10. The lexer is lossless: whatever token list \<open>_lex\<close> returns, the texts of its
  tokens, concatenated in order, are the input string, and no token tagged as a literal has
  an empty text. It returns for every input string when no configured marker is the empty
  string (an empty marker matches without moving the cursor).
\<close>

theorem lex_lossless:
  "(\<forall>tokens. lex cfg chars = Some tokens \<longrightarrow>
       concat (map TT_TEXT tokens) = chars
       \<and> (\<forall>t \<in> set tokens. TT_TAG t = LT_LITERAL \<longrightarrow> TT_TEXT t \<noteq> []))
   \<and> (nonempty_patterns cfg \<longrightarrow> (\<exists>tokens. lex cfg chars = Some tokens))"
proof -
  have fields: "TT_TEXT = fst" "TT_TAG = snd"
    by (rule ext, simp add: TT_TEXT_def) (rule ext, simp add: TT_TAG_def)
  have "concat (map TT_TEXT tokens) = chars
          \<and> (\<forall>t \<in> set tokens. TT_TAG t = LT_LITERAL \<longrightarrow> TT_TEXT t \<noteq> [])"
    if "lex cfg chars = Some tokens" for tokens
    using lex_returns_post[OF that] by (simp add: fields lex_post_def tokens_ok_def)
  moreover have "\<exists>tokens. lex cfg chars = Some tokens" if "nonempty_patterns cfg"
    using lex_loop_returns[OF that lex_inv_initial, of chars] by (auto simp: lex_def)
  ultimately show ?thesis
    by blast
qed

lemma nonempty_patterns_default: "nonempty_patterns default_config"
  by (simp add: nonempty_patterns_def TOKEN_EXPRS_def default_config_def)

lemma lex_a_b:
  "lex default_config ''a${b}'' = Some [(''a'', LT_LITERAL), (''${'', LT_INTRPL_START),
                                       (''b'', LT_LITERAL), (''}'', LT_INTRPL_END)]"
  by code_simp

theorem lex_lossless_witness:
  "nonempty_patterns default_config
   \<and> lex default_config ''a${b}'' = Some [(''a'', LT_LITERAL), (''${'', LT_INTRPL_START),
                                          (''b'', LT_LITERAL), (''}'', LT_INTRPL_END)]
   \<and> concat (map TT_TEXT [(''a'', LT_LITERAL), (''${'', LT_INTRPL_START),
                            (''b'', LT_LITERAL), (''}'', LT_INTRPL_END)]) = ''a${b}''"
  using lex_lossless[of default_config "''a${b}''"] nonempty_patterns_default lex_a_b
  by simp

text \<open>
  C3. For a constructed object whose parts are exactly one reference, \<open>render\<close> returns
  what the resolver returns for that name: the value itself (\<open>RValue\<close>), to which \<open>str\<close> is
  not applied, or the resolver's error. It is the only way for \<open>render\<close> to return
  anything but a string: a result \<open>RValue v\<close> implies that the parts are one reference
  whose lookup gave \<open>v\<close>.
\<close>

theorem render_single_reference:
  fixes to_str :: "'v \<Rightarrow> pyexc + string" and get_value :: "string \<Rightarrow> string \<Rightarrow> 'c \<Rightarrow> pyexc + 'v"
  assumes "RefValue cfg string delim = Some (Inr self)"
  shows "(\<forall>name. self_parts self = [reference_part name] \<longrightarrow>
            fst (render to_str get_value self context)
              = map_sum id RValue (resolve get_value self name context)
            \<and> (\<forall>v. get_value delim name context = Inr v \<longrightarrow>
                  fst (render to_str get_value self context) = Inr (RValue v)))
       \<and> (\<forall>v. fst (render to_str get_value self context) = Inr (RValue v) \<longrightarrow>
            (\<exists>name. self_parts self = [reference_part name]
                     \<and> get_value delim name context = Inr v))"
proof -
  note c = RefValue_constructed[OF assms]
  let ?r = "\<lambda>s. resolve get_value self s context"
  have single: "fst (render to_str get_value self context) = map_sum id RValue (?r name)"
    if "self_parts self = [reference_part name]" for name
    using that by (simp add: render_def assemble_memo[OF c(5)] reference_names_def reference_part_def)
  have returned: "fst (render to_str get_value self context) = Inr (RValue v)"
    if "self_parts self = [reference_part name]" "get_value delim name context = Inr v" for name v
    using single[OF that(1)] that(2) c(4) by (simp add: resolve_def)
  have only: "\<exists>name. self_parts self = [reference_part name] \<and> get_value delim name context = Inr v"
    if r: "fst (render to_str get_value self context) = Inr (RValue v)" for v
  proof -
    from r have one: "length (self_parts self) = 1 \<and> reference_names (self_parts self) \<noteq> []"
      by (simp add: render_def assemble_memo[OF c(5)] map_sum_RString_neq split: if_splits)
    then obtain name where n: "self_parts self = [reference_part name]"
      unfolding single_reference_iff ..
    from r single[OF n] have "?r name = Inr v"
      by (cases "?r name") simp_all
    with n c(4) show ?thesis
      by (auto simp: resolve_Inr)
  qed
  from single returned only show ?thesis by blast
qed

lemma RefValue_answer:
  "RefValue default_config ''${answer}'' ''.'' = Some (Inr
     \<lparr>self_refs = Some [''answer''], self_string = ''${answer}'', self_delim = ''.'',
      self_has_escapes = False,
      self_tokens = [(''${'', LT_INTRPL_START), (''answer'', LT_LITERAL), (''}'', LT_INTRPL_END)],
      self_parts = [reference_part ''answer'']\<rparr>)"
  by code_simp

theorem render_single_reference_witness:
  "\<exists>self. RefValue default_config ''${answer}'' ''.'' = Some (Inr self)
     \<and> self_parts self = [reference_part ''answer'']
     \<and> fst (render (\<lambda>v :: int. Inr ''forty-two'')
               (\<lambda>delim ref (context :: unit). if ref = ''answer'' then Inr 42 else Inl KeyError)
               self ()) = Inr (RValue 42)"
proof -
  define self where "self =
     \<lparr>self_refs = Some [''answer''], self_string = ''${answer}'', self_delim = ''.'',
      self_has_escapes = False,
      self_tokens = [(''${'', LT_INTRPL_START), (''answer'', LT_LITERAL), (''}'', LT_INTRPL_END)],
      self_parts = [reference_part ''answer'']\<rparr>"
  have c: "RefValue default_config ''${answer}'' ''.'' = Some (Inr self)"
    unfolding self_def by (rule RefValue_answer)
  have p: "self_parts self = [reference_part ''answer'']"
    by (simp add: self_def)
  from render_single_reference[OF c,
          of "\<lambda>v :: int. Inr ''forty-two''"
             "\<lambda>delim ref (context :: unit). if ref = ''answer'' then Inr 42 else Inl KeyError" "()"]
  have "self_parts self = [reference_part ''answer''] \<longrightarrow>
          (\<forall>v. (if ''answer'' = ''answer'' then Inr 42 else Inl KeyError) = (Inr v :: pyexc + int) \<longrightarrow>
            fst (render (\<lambda>v :: int. Inr ''forty-two'')
               (\<lambda>delim ref (context :: unit). if ref = ''answer'' then Inr 42 else Inl KeyError)
               self ()) = Inr (RValue v))"
    by blast
  with p have "fst (render (\<lambda>v :: int. Inr ''forty-two'')
               (\<lambda>delim ref (context :: unit). if ref = ''answer'' then Inr 42 else Inl KeyError)
               self ()) = Inr (RValue 42)"
    by simp
  with c p show ?thesis
    by blast
qed

text \<open>
  C5. An escape token met by the main loop is handled by exactly four cases, tried in this
  order. In each, the parse returns what the parse of the tokens that remain returns,
  after the parts of the case have been emitted. The escape is the last token: the parse
  returns the parts so far and the escape character as a literal, the flag as it was. The
  next token is neither an escape nor an interpolation start: the escape character is a
  literal and the next token is not consumed (the tokens that remain begin with it). The
  next token is an escape and a token after that exists and is not escapable: both escape
  characters are literals and the next token is consumed. Otherwise: the text of the next
  token is one literal, the escape character is dropped, the next token is consumed and
  \<open>has_escapes\<close> is true.
\<close>

theorem parse_escape_cases:
  assumes "it < length tokens" and "TT_TAG (tokens ! it) = LT_ESCAPE"
  shows "parse_loop cfg tokens it parts escapes =
     (if Suc it = length tokens
      then Inr (parts @ [literal_part (TT_TEXT (tokens ! it))], escapes)
      else if TT_TAG (tokens ! Suc it) \<noteq> LT_ESCAPE \<and> TT_TAG (tokens ! Suc it) \<noteq> LT_INTRPL_START
      then after_emitting (parts @ [literal_part (TT_TEXT (tokens ! it))]) escapes
             (parse cfg (drop (Suc it) tokens))
      else if TT_TAG (tokens ! Suc it) = LT_ESCAPE \<and> Suc (Suc it) < length tokens
              \<and> TT_TAG (tokens ! Suc (Suc it)) \<noteq> LT_ESCAPE
              \<and> TT_TAG (tokens ! Suc (Suc it)) \<noteq> LT_INTRPL_START
      then after_emitting (parts @ [literal_part (TT_TEXT (tokens ! it)),
                                    literal_part (TT_TEXT (tokens ! Suc it))]) escapes
             (parse cfg (drop (Suc (Suc it)) tokens))
      else after_emitting (parts @ [literal_part (TT_TEXT (tokens ! Suc it))]) True
             (parse cfg (drop (Suc (Suc it)) tokens)))"
proof -
  have step: "parse_loop cfg tokens it parts escapes =
     (if Suc it = length tokens
      then parse_loop cfg tokens (Suc it) (parts @ [literal_part (TT_TEXT (tokens ! it))]) escapes
      else if TT_TAG (tokens ! Suc it) \<noteq> LT_ESCAPE \<and> TT_TAG (tokens ! Suc it) \<noteq> LT_INTRPL_START
      then parse_loop cfg tokens (Suc it) (parts @ [literal_part (TT_TEXT (tokens ! it))]) escapes
      else if TT_TAG (tokens ! Suc it) = LT_ESCAPE \<and> Suc (Suc it) < length tokens
              \<and> TT_TAG (tokens ! Suc (Suc it)) \<noteq> LT_ESCAPE
              \<and> TT_TAG (tokens ! Suc (Suc it)) \<noteq> LT_INTRPL_START
      then parse_loop cfg tokens (Suc (Suc it))
             (parts @ [literal_part (TT_TEXT (tokens ! it)),
                       literal_part (TT_TEXT (tokens ! Suc it))]) escapes
      else parse_loop cfg tokens (Suc (Suc it))
             (parts @ [literal_part (TT_TEXT (tokens ! Suc it))]) True)"
    using assms by (subst parse_loop_step) (auto simp: parse_step_def)
  have r1: "parse_loop cfg tokens (Suc it) ps e = after_emitting ps e (parse cfg (drop (Suc it) tokens))"
    for ps e
    by (rule parse_loop_rest)
  have r2: "parse_loop cfg tokens (Suc (Suc it)) ps e
              = after_emitting ps e (parse cfg (drop (Suc (Suc it)) tokens))" for ps e
    by (rule parse_loop_rest)
  show ?thesis
  proof (cases "Suc it = length tokens")
    case True
    then have "parse_loop cfg tokens (Suc it) (parts @ [literal_part (TT_TEXT (tokens ! it))]) escapes
                 = Inr (parts @ [literal_part (TT_TEXT (tokens ! it))], escapes)"
      by (simp add: parse_loop_done)
    with True show ?thesis
      unfolding step by simp
  next
    case False
    then show ?thesis
      unfolding step r1 r2 by simp
  qed
qed

theorem parse_escape_cases_witness:
  "0 < length [([CHR 0x5C], LT_ESCAPE), (''${'', LT_INTRPL_START), (''a'', LT_LITERAL)]
   \<and> TT_TAG ([([CHR 0x5C], LT_ESCAPE), (''${'', LT_INTRPL_START), (''a'', LT_LITERAL)] ! 0) = LT_ESCAPE
   \<and> parse default_config [(''a'', LT_LITERAL)] = Inr ([literal_part ''a''], False)
   \<and> parse_loop default_config
        [([CHR 0x5C], LT_ESCAPE), (''${'', LT_INTRPL_START), (''a'', LT_LITERAL)] 0 [] False
      = Inr ([literal_part ''${'', literal_part ''a''], True)"
proof -
  have rest: "parse default_config [(''a'', LT_LITERAL)] = Inr ([literal_part ''a''], False)"
    by (simp add: parse_def parse_loop_step parse_step_def parse_loop_done TT_TAG_def TT_TEXT_def)
  from parse_escape_cases[of 0 "[([CHR 0x5C], LT_ESCAPE), (''${'', LT_INTRPL_START), (''a'', LT_LITERAL)]"
          default_config "[]" False] rest
  show ?thesis
    by (simp add: TT_TAG_def TT_TEXT_def after_emitting_def)
qed

text \<open>
  C6. An interpolation start whose sub-scan meets the end marker before it has collected
  anything makes the construction fail with the interpolation error: from every state of
  the main loop whose next token is an interpolation start directly followed by an
  interpolation end, the parser returns that error, and so does the constructor for every
  source string whose parse passes through such a state (a state the main loop passes
  through gives the same result as the whole parse). The error is a result of
  \<open>RefValue\<close>; no object exists that could be rendered.
\<close>

theorem empty_reference_name:
  assumes "Suc it < length tokens"
    and "TT_TAG (tokens ! it) = LT_INTRPL_START"
    and "TT_TAG (tokens ! Suc it) = LT_INTRPL_END"
  shows "parse_loop cfg tokens it parts escapes
           = Inl (InterpolationError ''String interpolation with empty/zero-length variablename found.'')
         \<and> (lex cfg string = Some tokens
              \<and> parse_loop cfg tokens 0 [] False = parse_loop cfg tokens it parts escapes
            \<longrightarrow> RefValue cfg string delim
                  = Some (Inl (InterpolationError ''String interpolation with empty/zero-length variablename found.'')))"
proof -
  from assms(1,3) have "parse_interpolation_loop cfg tokens (Suc it) [] = Inr ([], Suc it + 1)"
    by (simp add: parse_interpolation_loop_closed sub_scan_result_end)
  then have "parse_interpolation cfg tokens (Suc it)
               = Inl (InterpolationError ''String interpolation with empty/zero-length variablename found.'')"
    by (simp add: parse_interpolation_def)
  with assms(1,2) have "parse_step cfg tokens it
               = Inl (InterpolationError ''String interpolation with empty/zero-length variablename found.'')"
    by (simp add: parse_step_def)
  with assms(1) have "parse_loop cfg tokens it parts escapes
           = Inl (InterpolationError ''String interpolation with empty/zero-length variablename found.'')"
    by (simp add: parse_loop_step)
  then show ?thesis
    by (simp add: RefValue_def parse_def)
qed

lemma lex_a_empty_reference:
  "lex default_config ''a${}'' = Some [(''a'', LT_LITERAL), (''${'', LT_INTRPL_START), (''}'', LT_INTRPL_END)]"
  by code_simp

theorem empty_reference_name_witness:
  "Suc 1 < length [(''a'', LT_LITERAL), (''${'', LT_INTRPL_START), (''}'', LT_INTRPL_END)]
   \<and> TT_TAG ([(''a'', LT_LITERAL), (''${'', LT_INTRPL_START), (''}'', LT_INTRPL_END)] ! 1) = LT_INTRPL_START
   \<and> TT_TAG ([(''a'', LT_LITERAL), (''${'', LT_INTRPL_START), (''}'', LT_INTRPL_END)] ! Suc 1) = LT_INTRPL_END
   \<and> lex default_config ''a${}'' = Some [(''a'', LT_LITERAL), (''${'', LT_INTRPL_START), (''}'', LT_INTRPL_END)]
   \<and> parse_loop default_config [(''a'', LT_LITERAL), (''${'', LT_INTRPL_START), (''}'', LT_INTRPL_END)] 0 [] False
       = parse_loop default_config [(''a'', LT_LITERAL), (''${'', LT_INTRPL_START), (''}'', LT_INTRPL_END)] 1
           [literal_part ''a''] False
   \<and> RefValue default_config ''a${}'' ''.''
       = Some (Inl (InterpolationError ''String interpolation with empty/zero-length variablename found.''))"
proof -
  let ?tokens = "[(''a'', LT_LITERAL), (''${'', LT_INTRPL_START), (''}'', LT_INTRPL_END)]"
  have reach: "parse_loop default_config ?tokens 0 [] False
                 = parse_loop default_config ?tokens 1 [literal_part ''a''] False"
    by (simp add: parse_loop_step parse_step_def TT_TAG_def TT_TEXT_def)
  have tags: "Suc 1 < length ?tokens" "TT_TAG (?tokens ! 1) = LT_INTRPL_START"
    "TT_TAG (?tokens ! Suc 1) = LT_INTRPL_END"
    by (simp_all add: TT_TAG_def)
  from empty_reference_name[OF tags, of default_config "[literal_part ''a'']" False "''a${}''" "''.''"]
    lex_a_empty_reference reach tags
  show ?thesis
    by simp
qed

text \<open>
  C1 (the code does otherwise). In the sub-scan the test of line 214 compares the token
  tuple with the tag string, which is never equal, so an escape token followed by an
  interpolation end appends the escape character and the end marker ends the scan. For
  the source \<open>${a\}b}\<close> the reference name is \<open>a\\<close>, and \<open>b\<close> and \<open>}\<close> are literal parts.
\<close>

theorem escaped_end_marker_ends_scan:
  "map_option (map_sum id self_parts)
     (RefValue default_config (''${a'' @ [CHR 0x5C] @ ''}b}'') ''.'')
   = Some (Inr [reference_part (''a'' @ [CHR 0x5C]), literal_part ''b'', literal_part ''}''])"
  by code_simp

text \<open>
  C2 (the code does otherwise). An escape token that is the last token of an unterminated
  interpolation makes line 214 read \<open>tokens[index + 1]\<close> beyond the end: the constructor
  raises \<open>IndexError\<close> for the source \<open>${a\\<close>, not the incomplete-interpolation error.
\<close>

theorem unterminated_interpolation_index_error:
  "RefValue default_config (''${a'' @ [CHR 0x5C]) ''.'' = Some (Inl IndexError)"
  by code_simp






text \<open>
  C8. For a constructed object, \<open>get_references\<close> returns the names of the reference parts
  in the order of the parts, one entry for each reference part (nothing is removed), and
  leaves the object as it is, as do \<open>render\<close> and the redisplay: every later call returns
  the same list. The order is the order of the source: the references collected at any
  state that the main loop passes through are a prefix of the final list.
\<close>

theorem get_references_stable:
  assumes "RefValue cfg string delim = Some (Inr self)"
  shows "get_references self
           = (map data (filter (\<lambda>part. ptype part = PT_REFERENCE) (self_parts self)), self)
       \<and> snd (get_references self) = self
       \<and> snd (render to_str get_value self context) = self
       \<and> snd (redisplay cfg self) = self
       \<and> (\<forall>it parts escapes.
            parse_loop cfg (self_tokens self) 0 [] False
              = parse_loop cfg (self_tokens self) it parts escapes \<longrightarrow>
            prefix (map data (filter (\<lambda>part. ptype part = PT_REFERENCE) parts))
                   (fst (get_references self)))"
proof -
  note k = RefValue_constructed[OF assms]
  have g: "get_references self = (reference_names (self_parts self), self)"
    by (rule get_references_memo[OF k(5)])
  have order: "prefix (map data (filter (\<lambda>part. ptype part = PT_REFERENCE) parts))
                      (fst (get_references self))"
    if "parse_loop cfg (self_tokens self) 0 [] False
          = parse_loop cfg (self_tokens self) it parts escapes" for it parts escapes
  proof -
    from that k(2) have "parse_loop cfg (self_tokens self) it parts escapes
                           = Inr (self_parts self, self_has_escapes self)"
      by (simp add: parse_def)
    then have "prefix parts (self_parts self)"
      by (rule parse_loop_prefix)
    then obtain rest where "self_parts self = parts @ rest"
      by (auto elim: prefixE)
    then show ?thesis
      by (simp add: g reference_names_def)
  qed
  from g order show ?thesis
    by (simp add: reference_names_def render_def redisplay_def assemble_memo[OF k(5)])
qed

lemma RefValue_a_b_a:
  "RefValue default_config ''${a}${b}${a}'' ''.'' = Some (Inr
     \<lparr>self_refs = Some [''a'', ''b'', ''a''], self_string = ''${a}${b}${a}'', self_delim = ''.'',
      self_has_escapes = False,
      self_tokens = [(''${'', LT_INTRPL_START), (''a'', LT_LITERAL), (''}'', LT_INTRPL_END),
                     (''${'', LT_INTRPL_START), (''b'', LT_LITERAL), (''}'', LT_INTRPL_END),
                     (''${'', LT_INTRPL_START), (''a'', LT_LITERAL), (''}'', LT_INTRPL_END)],
      self_parts = [reference_part ''a'', reference_part ''b'', reference_part ''a'']\<rparr>)"
  by code_simp

theorem get_references_stable_witness:
  "\<exists>self. RefValue default_config ''${a}${b}${a}'' ''.'' = Some (Inr self)
     \<and> get_references self = ([''a'', ''b'', ''a''], self)
     \<and> snd (render (\<lambda>v :: int. Inr ''0'') (\<lambda>delim ref (context :: unit). Inl KeyError) self ()) = self"
proof -
  define self where "self =
     \<lparr>self_refs = Some [''a'', ''b'', ''a''], self_string = ''${a}${b}${a}'', self_delim = ''.'',
      self_has_escapes = False,
      self_tokens = [(''${'', LT_INTRPL_START), (''a'', LT_LITERAL), (''}'', LT_INTRPL_END),
                     (''${'', LT_INTRPL_START), (''b'', LT_LITERAL), (''}'', LT_INTRPL_END),
                     (''${'', LT_INTRPL_START), (''a'', LT_LITERAL), (''}'', LT_INTRPL_END)],
      self_parts = [reference_part ''a'', reference_part ''b'', reference_part ''a'']\<rparr>"
  have c: "RefValue default_config ''${a}${b}${a}'' ''.'' = Some (Inr self)"
    unfolding self_def by (rule RefValue_a_b_a)
  have p: "map data (filter (\<lambda>part. ptype part = PT_REFERENCE) (self_parts self)) = [''a'', ''b'', ''a'']"
    by (simp add: self_def reference_part_def)
  from get_references_stable[OF c, of "\<lambda>v :: int. Inr ''0''"
         "\<lambda>delim ref (context :: unit). Inl KeyError" "()"] p
  have "get_references self = ([''a'', ''b'', ''a''], self)"
    and "snd (render (\<lambda>v :: int. Inr ''0'') (\<lambda>delim ref (context :: unit). Inl KeyError) self ()) = self"
    by simp_all
  with c show ?thesis
    by blast
qed

text \<open>
  C4. For a constructed object without reference parts and with \<open>has_escapes\<close> false,
  \<open>render\<close> returns the source string, whatever the context. In particular a string
  in which none of the three markers occurs is constructed without error and rendered as
  itself.
\<close>

theorem render_identity:
  fixes get_value :: "string \<Rightarrow> string \<Rightarrow> 'c \<Rightarrow> pyexc + 'v"
  shows "(RefValue cfg string delim = Some (Inr self)
          \<and> (\<forall>part \<in> set (self_parts self). ptype part \<noteq> PT_REFERENCE)
          \<and> \<not> has_escapes self
          \<longrightarrow> fst (render to_str get_value self context) = Inr (RString string))
       \<and> (marker_free cfg string
          \<longrightarrow> (\<exists>self'. RefValue cfg string delim = Some (Inr self')
                 \<and> fst (render to_str get_value self' context) = Inr (RString string)))"
proof -
  have fast: "fst (render to_str get_value self context) = Inr (RString string)"
    if c: "RefValue cfg string delim = Some (Inr self)"
      and n: "\<forall>part \<in> set (self_parts self). ptype part \<noteq> PT_REFERENCE"
      and e: "\<not> has_escapes self" for self
  proof -
    note k = RefValue_constructed[OF c]
    from n have "reference_names (self_parts self) = []"
      by (simp add: reference_names_Nil_iff)
    with e k(3) show ?thesis
      by (simp add: render_def assemble_memo[OF k(5)] has_escapes_def)
  qed
  have plain: "\<exists>self'. RefValue cfg string delim = Some (Inr self')
                 \<and> fst (render to_str get_value self' context) = Inr (RString string)"
    if free: "marker_free cfg string"
  proof -
    define parts where "parts = (if string = [] then [] else [literal_part string])"
    have "RefValue cfg string delim = Some (Inr (snd (get_references
            \<lparr>self_refs = None, self_string = string, self_delim = delim,
             self_has_escapes = False,
             self_tokens = (if string = [] then [] else [(string, LT_LITERAL)]),
             self_parts = parts\<rparr>)))"
      by (simp add: RefValue_def lex_marker_free[OF free] parse_literal parts_def)
    then obtain self' where c: "RefValue cfg string delim = Some (Inr self')"
      and p: "self_parts self' = parts" and h: "\<not> has_escapes self'"
      by (simp add: get_references_def has_escapes_def Let_def)
    have "\<forall>part \<in> set (self_parts self'). ptype part \<noteq> PT_REFERENCE"
      by (simp add: p parts_def literal_part_def)
    from fast[OF c this h] c show ?thesis
      by blast
  qed
  from fast plain show ?thesis
    by blast
qed

lemma marker_free_abc: "marker_free default_config ''abc''"
  by (simp add: marker_free_def default_config_def sublist_Cons_right prefix_Cons)

lemma RefValue_abc:
  "RefValue default_config ''abc'' ''.'' = Some (Inr
     \<lparr>self_refs = Some [], self_string = ''abc'', self_delim = ''.'',
      self_has_escapes = False, self_tokens = [(''abc'', LT_LITERAL)],
      self_parts = [literal_part ''abc'']\<rparr>)"
  by code_simp

theorem render_identity_witness:
  "marker_free default_config ''abc''
   \<and> (\<exists>self. RefValue default_config ''abc'' ''.'' = Some (Inr self)
        \<and> (\<forall>part \<in> set (self_parts self). ptype part \<noteq> PT_REFERENCE)
        \<and> \<not> has_escapes self
        \<and> fst (render (\<lambda>v :: int. Inr ''0'') (\<lambda>delim ref (context :: unit). Inl KeyError) self ())
            = Inr (RString ''abc''))"
proof -
  define self where "self =
     \<lparr>self_refs = Some [], self_string = ''abc'', self_delim = ''.'',
      self_has_escapes = False, self_tokens = [(''abc'', LT_LITERAL)],
      self_parts = [literal_part ''abc'']\<rparr>"
  have c: "RefValue default_config ''abc'' ''.'' = Some (Inr self)"
    unfolding self_def by (rule RefValue_abc)
  have n: "\<forall>part \<in> set (self_parts self). ptype part \<noteq> PT_REFERENCE"
    and e: "\<not> has_escapes self"
    by (simp_all add: self_def literal_part_def has_escapes_def)
  from render_identity[of default_config "''abc''" "''.''" self "\<lambda>v :: int. Inr ''0''"
          "\<lambda>delim ref (context :: unit). Inl KeyError" "()"] c n e
  have "fst (render (\<lambda>v :: int. Inr ''0'') (\<lambda>delim ref (context :: unit). Inl KeyError) self ())
            = Inr (RString ''abc'')"
    by blast
  with c n e marker_free_abc show ?thesis
    by blast
qed




end
